theory Spec2Isabelle
  imports Main "HOL-Library.Sublist"
begin

section \<open>Values of the request model\<close>

text \<open>
  Python values that occur as request arguments, generation options and results.
  A dictionary keeps its insertion order (an association list), a float is kept as
  the literal that \<^verbatim>\<open>repr\<close> prints for it.
\<close>

datatype pyval =
    PNone
  | PBool bool
  | PInt int
  | PFloat string
  | PStr string
  | PList "pyval list"
  | PDict "(string \<times> pyval) list"

datatype error =
    AssertionError
  | ValueError
  | TypeError
  | AttributeError
  | IndexError
  | EngineError

type_synonym kwargs = "(string \<times> pyval) list"

record request =
  args :: "pyval list"
  kwargs :: kwargs
  result :: pyval

section \<open>Stop-sequence truncation (llm.py, update-instance-with-result)\<close>





section \<open>Dictionaries\<close>

text \<open>
  A Python \<^verbatim>\<open>dict\<close> is an association list in insertion order. Assigning to a key
  that is present replaces its value in place, assigning to a new key appends it.
\<close>

fun dict_set :: "kwargs \<Rightarrow> string \<Rightarrow> pyval \<Rightarrow> kwargs" where
  "dict_set [] k v = [(k, v)]"
| "dict_set ((k', v') # d) k v =
     (if k' = k then (k, v) # d else (k', v') # dict_set d k v)"

text \<open>\<^verbatim>\<open>{**a, **b}\<close>: the entries of \<^verbatim>\<open>a\<close>, then those of \<^verbatim>\<open>b\<close> assigned in order.\<close>

definition dict_merge :: "kwargs \<Rightarrow> kwargs \<Rightarrow> kwargs" where
  "dict_merge a b = foldl (\<lambda>d (k, v). dict_set d k v) a b"

text \<open>\<^verbatim>\<open>d.pop(k)\<close> for a key that is present: the dictionary without the key.\<close>

definition dict_pop :: "kwargs \<Rightarrow> string \<Rightarrow> kwargs" where
  "dict_pop d k = filter (\<lambda>(k', v). k' \<noteq> k) d"

section \<open>Generation options of a chunk (vllm.py, generate-batch and modify-gen-kwargs)\<close>

text \<open>
  Lines 286 to 304 of \<^verbatim>\<open>generate_batch\<close>: the options of the chunk's first instance
  are laid over the generator's base options, the stop sequences are taken out, and
  the option names are normalised. The request model keeps \<^verbatim>\<open>kwargs\<close> as a
  dictionary, so the \<^verbatim>\<open>ValueError\<close> for options that are no dictionary cannot arise.
\<close>

definition take_stop_sequences :: "kwargs \<Rightarrow> error + (pyval list option \<times> kwargs)" where
  "take_stop_sequences kw =
     (case map_of kw ''stop_sequences'' of
        None \<Rightarrow> Inr (None, kw)
      | Some (PStr s) \<Rightarrow> Inr (Some [PStr s], dict_pop kw ''stop_sequences'')
      | Some (PList l) \<Rightarrow> Inr (Some l, dict_pop kw ''stop_sequences'')
      | Some _ \<Rightarrow> Inl ValueError)"

definition rename_max_new_tokens :: "kwargs \<Rightarrow> kwargs" where
  "rename_max_new_tokens kw =
     (case map_of kw ''max_new_tokens'' of
        None \<Rightarrow> kw
      | Some v \<Rightarrow> dict_set (dict_pop kw ''max_new_tokens'') ''max_tokens'' v)"

definition rename_min_new_tokens :: "kwargs \<Rightarrow> kwargs" where
  "rename_min_new_tokens kw =
     (case map_of kw ''min_new_tokens'' of
        None \<Rightarrow> kw
      | Some v \<Rightarrow> dict_set (dict_pop kw ''min_new_tokens'') ''min_tokens'' v)"

definition rename_decoding_method :: "kwargs \<Rightarrow> kwargs" where
  "rename_decoding_method kw =
     (case map_of kw ''decoding_method'' of
        None \<Rightarrow> kw
      | Some v \<Rightarrow>
          dict_set (dict_pop kw ''decoding_method'') ''do_sample'' (PBool (v = PStr ''sample'')))"

definition unpack_gen_kwargs ::
  "kwargs \<Rightarrow> pyval \<Rightarrow> kwargs \<Rightarrow> error + (pyval list option \<times> kwargs)" where
  "unpack_gen_kwargs base_kwargs max_gen_toks gen_kwargs =
     (case take_stop_sequences (dict_merge base_kwargs gen_kwargs) of
        Inl e \<Rightarrow> Inl e
      | Inr (until, kw) \<Rightarrow>
          Inr (until,
               rename_decoding_method
                 (rename_min_new_tokens
                   (rename_max_new_tokens (dict_set kw ''max_tokens'' max_gen_toks)))))"

text \<open>
  \<^verbatim>\<open>modify_gen_kwargs\<close>: \<^verbatim>\<open>do_sample\<close> is taken out; the temperature becomes
  \<^verbatim>\<open>0.0\<close> when \<^verbatim>\<open>do_sample is False\<close> or when no temperature is given.
\<close>

definition dict_get_default :: "kwargs \<Rightarrow> string \<Rightarrow> pyval \<Rightarrow> pyval" where
  "dict_get_default d k v = (case map_of d k of None \<Rightarrow> v | Some w \<Rightarrow> w)"

definition modify_gen_kwargs :: "kwargs \<Rightarrow> kwargs" where
  "modify_gen_kwargs kwargs0 =
     (let do_sample = dict_get_default kwargs0 ''do_sample'' PNone;
          kw1 = dict_pop kwargs0 ''do_sample'';
          kw2 = (if do_sample = PBool False \<or> map_of kw1 ''temperature'' = None
                 then dict_set kw1 ''temperature'' (PFloat ''0.0'') else kw1);
          kw3 = dict_set kw2 ''skip_special_tokens''
                  (dict_get_default kw2 ''skip_special_tokens'' (PBool False))
      in dict_set kw3 ''spaces_between_special_tokens''
           (dict_get_default kw3 ''spaces_between_special_tokens'' (PBool False)))"

text \<open>
  The keyword arguments that reach \<^verbatim>\<open>SamplingParams\<close> for a chunk, beside the stop
  sequences: \<^verbatim>\<open>_model_generate\<close> applies \<^verbatim>\<open>modify_gen_kwargs\<close> to the unpacked options.
\<close>

definition sampling_kwargs :: "kwargs \<Rightarrow> pyval \<Rightarrow> kwargs \<Rightarrow> error + kwargs" where
  "sampling_kwargs base_kwargs max_gen_toks gen_kwargs =
     (case unpack_gen_kwargs base_kwargs max_gen_toks gen_kwargs of
        Inl e \<Rightarrow> Inl e
      | Inr (until, kw) \<Rightarrow> Inr (modify_gen_kwargs kw))"

section \<open>Cache keys (llm.py, hash-args)\<close>

text \<open>
  \<^verbatim>\<open>json.dumps\<close> with its default settings: items separated by a comma and a space,
  keys and values by a colon and a space, dictionaries in insertion order, strings
  between double quotes with every character outside the printable ASCII range, the
  double quote and the backslash escaped. Characters are code points below 256.
\<close>

definition hex_digit :: "nat \<Rightarrow> char" where
  "hex_digit n = ''0123456789abcdef'' ! n"

definition escape_char :: "char \<Rightarrow> string" where
  "escape_char c =
     (if c = CHR 0x22 then [CHR 0x5C, CHR 0x22]
      else if c = CHR 0x5C then [CHR 0x5C, CHR 0x5C]
      else if c = CHR 0x0A then [CHR 0x5C, CHR ''n'']
      else if c = CHR 0x0D then [CHR 0x5C, CHR ''r'']
      else if c = CHR 0x09 then [CHR 0x5C, CHR ''t'']
      else if c = CHR 0x08 then [CHR 0x5C, CHR ''b'']
      else if c = CHR 0x0C then [CHR 0x5C, CHR ''f'']
      else if (of_char c :: nat) < 32 \<or> (of_char c :: nat) > 126
        then [CHR 0x5C, CHR ''u'', CHR ''0'', CHR ''0'',
              hex_digit ((of_char c :: nat) div 16), hex_digit ((of_char c :: nat) mod 16)]
      else [c])"

definition json_str :: "string \<Rightarrow> string" where
  "json_str s = CHR 0x22 # concat (map escape_char s) @ [CHR 0x22]"

fun dec_digits :: "nat \<Rightarrow> string" where
  "dec_digits n =
     (if n < 10 then [hex_digit n] else dec_digits (n div 10) @ [hex_digit (n mod 10)])"

definition json_int :: "int \<Rightarrow> string" where
  "json_int i = (if i < 0 then CHR ''-'' # dec_digits (nat (- i)) else dec_digits (nat i))"

fun join :: "string \<Rightarrow> string list \<Rightarrow> string" where
  "join sep [] = []"
| "join sep [x] = x"
| "join sep (x # y # ys) = x @ sep @ join sep (y # ys)"

fun json_dumps :: "pyval \<Rightarrow> string" where
  "json_dumps PNone = ''null''"
| "json_dumps (PBool b) = (if b then ''true'' else ''false'')"
| "json_dumps (PInt i) = json_int i"
| "json_dumps (PFloat r) = r"
| "json_dumps (PStr s) = json_str s"
| "json_dumps (PList xs) = ''['' @ join '', '' (map json_dumps xs) @ '']''"
| "json_dumps (PDict kvs) =
     ''{'' @ join '', '' (map (\<lambda>kv. json_str (fst kv) @ '': '' @ json_dumps (snd kv)) kvs) @ ''}''"

text \<open>
  \<^verbatim>\<open>dat = json.dumps([attr] + [request.args, request.kwargs])\<close>, the string that is
  hashed.
\<close>

definition hash_input :: "string \<Rightarrow> request \<Rightarrow> string" where
  "hash_input attr req = json_dumps (PList [PStr attr, PList (args req), PDict (kwargs req)])"

text \<open>
  The key is the SHA-256 digest of that string, in hexadecimal. The digest is the
  standard library's; the model takes it as the parameter \<open>digest\<close>.
\<close>

definition hash_args :: "(string \<Rightarrow> string) \<Rightarrow> string \<Rightarrow> request \<Rightarrow> string" where
  "hash_args digest attr req = digest (hash_input attr req)"



section \<open>Log-likelihood scoring (vllm.py, loglikelihood-tokens and parse-logprobs)\<close>

text \<open>
  The slice \<^verbatim>\<open>xs[i:]\<close>: from position \<open>i\<close> for \<open>i \<ge> 0\<close>, the last \<open>-i\<close>
  elements (all of them when there are fewer) for \<open>i < 0\<close>.
\<close>

definition py_slice_from :: "int \<Rightarrow> 'a list \<Rightarrow> 'a list" where
  "py_slice_from i xs =
     (if 0 \<le> i then drop (nat i) xs else drop (length xs - nat (- i)) xs)"

text \<open>
  Lines 362 to 365: the model input \<^verbatim>\<open>(context_enc + continuation_enc)[-max_length:]\<close>
  and the boundary \<^verbatim>\<open>ctxlen\<close>.
\<close>

definition loglikelihood_input :: "int \<Rightarrow> nat list \<Rightarrow> nat list \<Rightarrow> nat list \<times> int" where
  "loglikelihood_input max_length context_enc continuation_enc =
     (py_slice_from (- max_length) (context_enc @ continuation_enc),
      int (length context_enc)
        - max 0 (int (length context_enc) + int (length continuation_enc) - max_length))"

text \<open>
  \<^verbatim>\<open>_parse_logprobs\<close>: the engine gives one dictionary from token to log-probability
  per prompt position, \<^verbatim>\<open>None\<close> at the first. The sum runs over the pairs of
  \<^verbatim>\<open>zip(tokens[ctxlen:], dicts[ctxlen:])\<close>; \<^verbatim>\<open>None.get\<close> raises AttributeError, adding
  the \<^verbatim>\<open>None\<close> of a missing token raises TypeError. The log-probabilities are taken in
  any type with an addition and a zero.
\<close>

fun sum_logprobs ::
  "(nat \<times> (nat \<rightharpoonup> 'a::monoid_add) option) list \<Rightarrow> 'a \<Rightarrow> error + 'a" where
  "sum_logprobs [] acc = Inr acc"
| "sum_logprobs ((token, None) # rest) acc = Inl AttributeError"
| "sum_logprobs ((token, Some logprob_dict) # rest) acc =
     (case logprob_dict token of
        None \<Rightarrow> Inl TypeError
      | Some v \<Rightarrow> sum_logprobs rest (acc + v))"

definition scored_tokens :: "nat list \<Rightarrow> int \<Rightarrow> nat list" where
  "scored_tokens tokens ctxlen = py_slice_from ctxlen tokens"

definition parse_logprobs ::
  "nat list \<Rightarrow> (nat \<rightharpoonup> 'a::monoid_add) option list \<Rightarrow> int \<Rightarrow> error + 'a" where
  "parse_logprobs tokens outputs ctxlen =
     sum_logprobs (zip (scored_tokens tokens ctxlen) (py_slice_from ctxlen outputs)) 0"

section \<open>Distributing requests over workers (vllm.py, model-generate)\<close>

text \<open>
  \<^verbatim>\<open>more_itertools.distribute(n, iterable)\<close>: child \<open>i\<close> is
  \<^verbatim>\<open>islice(iterable, i, None, n)\<close>, the items at the positions \<open>i\<close>, \<open>i + n\<close>,
  \<open>i + 2n\<close> and so on; \<open>n < 1\<close> raises ValueError.
\<close>

fun stride :: "nat \<Rightarrow> 'a list \<Rightarrow> 'a list" where
  "stride n [] = []"
| "stride n (x # xs) = x # stride n (drop (n - 1) xs)"

definition islice_from :: "nat \<Rightarrow> nat \<Rightarrow> 'a list \<Rightarrow> 'a list" where
  "islice_from i n xs = stride n (drop i xs)"

definition distribute :: "int \<Rightarrow> 'a list \<Rightarrow> error + 'a list list" where
  "distribute n items =
     (if n < 1 then Inl ValueError
      else Inr (map (\<lambda>i. islice_from i (nat n) items) [0..<nat n]))"

text \<open>
  Modelled from the spec: \<^verbatim>\<open>undistribute\<close> of \<^verbatim>\<open>fms_sdg.generators.utils\<close>, which is
  not among the sources. The specification calls it the inverse of the round-robin
  partition: given the per-partition lists, each in the order of its partition, it
  reassembles the single sequence in the original order. The model takes the first
  item of every non-empty list in turn, then goes on with the remainders.
\<close>

function undistribute :: "'a list list \<Rightarrow> 'a list" where
  "undistribute ls =
     (if list_all (\<lambda>l. l = []) ls then []
      else map hd (filter (\<lambda>l. l \<noteq> []) ls)
             @ undistribute (map tl (filter (\<lambda>l. l \<noteq> []) ls)))"
  by pat_completeness auto

lemma sum_length_tl_le:
  "sum_list (map (length \<circ> tl) (filter (\<lambda>l. l \<noteq> []) ls)) \<le> sum_list (map length ls)"
  by (induction ls) auto

lemma sum_length_tl:
  "\<not> list_all (\<lambda>l. l = []) ls \<Longrightarrow>
   sum_list (map (length \<circ> tl) (filter (\<lambda>l. l \<noteq> []) ls)) < sum_list (map length ls)"
proof (induction ls)
  case Nil
  then show ?case by simp
next
  case (Cons l ls)
  define S where "S = sum_list (map (length \<circ> tl) (filter (\<lambda>l. l \<noteq> []) ls))"
  define T where "T = sum_list (map length ls)"
  have le: "S \<le> T"
    unfolding S_def T_def by (rule sum_length_tl_le)
  show ?case
  proof (cases "l = []")
    case True
    with Cons show ?thesis by simp
  next
    case False
    then have "length (tl l) < length l" by (cases l) simp_all
    with le have "length (tl l) + S < length l + T" by simp
    moreover have "sum_list (map (length \<circ> tl) (filter (\<lambda>l. l \<noteq> []) (l # ls)))
        = length (tl l) + S"
      using False by (simp add: S_def)
    moreover have "sum_list (map length (l # ls)) = length l + T"
      by (simp add: T_def)
    ultimately show ?thesis by (simp only:)
  qed
qed

termination undistribute
  by (relation "measure (\<lambda>ls. sum_list (map length ls))") (simp_all add: sum_length_tl)

declare undistribute.simps [simp del]

section \<open>The caching dispatcher (llm.py, CachingLM)\<close>

text \<open>
  The cache store maps a key to the stored value; a stored \<^verbatim>\<open>None\<close> is the value
  \<open>PNone\<close> under a key that is present.
\<close>

type_synonym store = "string \<rightharpoonup> pyval"

text \<open>
  The wrapped generator is a parameter. Called with an operation name and a list of
  requests it either raises or assigns result slots, possibly writes to the store through
  its cache hook, and changes its own state \<open>'w\<close> (the inference engine). The slot it leaves
  on the \<open>k\<close>-th request of the list is given as a function of \<open>k\<close>; a slot it does
  not assign keeps its old content, \<open>PNone\<close> for a fresh request. Requests are values
  here: a request object that occurs twice in a list is two equal requests.
\<close>

type_synonym 'w generator =
  "string \<Rightarrow> request list \<Rightarrow> 'w \<times> store \<Rightarrow> error + ((nat \<Rightarrow> pyval) \<times> 'w \<times> store)"

definition set_results :: "request list \<Rightarrow> (nat \<Rightarrow> pyval) \<Rightarrow> request list" where
  "set_results reqs f = map (\<lambda>(k, r). r\<lparr>result := f k\<rparr>) (enumerate 0 reqs)"

text \<open>
  \<^verbatim>\<open>attr == "generate_batch" and req.kwargs.get("decoding_method", None) == "sample"\<close>
\<close>

definition exempt :: "string \<Rightarrow> request \<Rightarrow> bool" where
  "exempt attr req \<longleftrightarrow>
     attr = ''generate_batch'' \<and> map_of (kwargs req) ''decoding_method'' = Some (PStr ''sample'')"

text \<open>
  The first loop (lines 194 to 215): the list \<^verbatim>\<open>res\<close> with the cached values and
  \<^verbatim>\<open>None\<close> for the others, and the list \<^verbatim>\<open>remaining_reqs\<close>.
\<close>

fun check_cached ::
  "(string \<Rightarrow> string) \<Rightarrow> string \<Rightarrow> store \<Rightarrow> request list \<Rightarrow> error + (pyval list \<times> request list)" where
  "check_cached digest attr db [] = Inr ([], [])"
| "check_cached digest attr db (req # reqs) =
     (if exempt attr req then
        (case check_cached digest attr db reqs of
           Inl e \<Rightarrow> Inl e
         | Inr (res, remaining_reqs) \<Rightarrow> Inr (PNone # res, req # remaining_reqs))
      else
        (case db (hash_args digest attr req) of
           Some ob \<Rightarrow>
             if ob = PNone then Inl AssertionError
             else (case check_cached digest attr db reqs of
                     Inl e \<Rightarrow> Inl e
                   | Inr (res, remaining_reqs) \<Rightarrow> Inr (ob # res, remaining_reqs))
         | None \<Rightarrow>
             (case check_cached digest attr db reqs of
                Inl e \<Rightarrow> Inl e
              | Inr (res, remaining_reqs) \<Rightarrow> Inr (PNone # res, req # remaining_reqs))))"

text \<open>
  \<^verbatim>\<open>while res[resptr] is not None: resptr += 1\<close>; reading past the end of the list
  raises IndexError.
\<close>

function advance :: "pyval list \<Rightarrow> nat \<Rightarrow> nat option" where
  "advance res resptr =
     (if length res \<le> resptr then None
      else if res ! resptr \<noteq> PNone then advance res (Suc resptr)
      else Some resptr)"
  by pat_completeness auto
termination
  by (relation "measure (\<lambda>(res, resptr). length res - resptr)") auto

declare advance.simps [simp del]

text \<open>
  The second loop (lines 225 to 234): every request that was run puts its result into
  the next free slot of \<^verbatim>\<open>res\<close> and into the store, under its key.
\<close>

fun merge_results ::
  "(string \<Rightarrow> string) \<Rightarrow> string \<Rightarrow> request list \<Rightarrow> pyval list \<Rightarrow> nat \<Rightarrow> store
     \<Rightarrow> error + (pyval list \<times> store)" where
  "merge_results digest attr [] res resptr db = Inr (res, db)"
| "merge_results digest attr (req # reqs) res resptr db =
     (case advance res resptr of
        None \<Rightarrow> Inl IndexError
      | Some q \<Rightarrow>
          merge_results digest attr reqs (res[q := result req]) q
            (db(hash_args digest attr req \<mapsto> result req)))"

text \<open>
  The function \<^verbatim>\<open>fn\<close> that \<^verbatim>\<open>__getattr__\<close> returns for a callable attribute: the
  cache check, one call of the generator on the remaining requests, the merge, and the
  last loop, which stores \<^verbatim>\<open>res\<close> on the requests in order.
\<close>

definition dispatch ::
  "(string \<Rightarrow> string) \<Rightarrow> 'w generator \<Rightarrow> string \<Rightarrow> request list \<Rightarrow> 'w \<times> store
     \<Rightarrow> error + (request list \<times> 'w \<times> store)" where
  "dispatch digest lm attr requests s =
     (case check_cached digest attr (snd s) requests of
        Inl e \<Rightarrow> Inl e
      | Inr (res, remaining_reqs) \<Rightarrow>
          (case lm attr remaining_reqs s of
             Inl e \<Rightarrow> Inl e
           | Inr (f, w, db) \<Rightarrow>
               (case merge_results digest attr (set_results remaining_reqs f) res 0 db of
                  Inl e \<Rightarrow> Inl e
                | Inr (res', db') \<Rightarrow>
                    Inr (map (\<lambda>(req, req_res). req\<lparr>result := req_res\<rparr>) (zip requests res'),
                         w, db'))))"

text \<open>A request that the first loop hands to the generator.\<close>

definition needs_run :: "(string \<Rightarrow> string) \<Rightarrow> string \<Rightarrow> store \<Rightarrow> request \<Rightarrow> bool" where
  "needs_run digest attr db req \<longleftrightarrow> exempt attr req \<or> db (hash_args digest attr req) = None"

text \<open>
  Two auxiliary functions for stating what the loops compute: \<open>fill\<close> puts a list of
  values into the \<open>PNone\<close> slots of a list, in order; \<open>slot\<close> is the entry of
  \<^verbatim>\<open>res\<close> that the first loop appends for a request.
\<close>

fun fill :: "pyval list \<Rightarrow> pyval list \<Rightarrow> pyval list" where
  "fill [] vs = []"
| "fill (x # xs) vs =
     (if x = PNone then (case vs of [] \<Rightarrow> x # xs | v # vs' \<Rightarrow> v # fill xs vs')
      else x # fill xs vs)"

definition slot :: "(string \<Rightarrow> string) \<Rightarrow> string \<Rightarrow> store \<Rightarrow> request \<Rightarrow> pyval" where
  "slot H attr db r =
     (if needs_run H attr db r then PNone else the (db (hash_args H attr r)))"

section \<open>Batched generation (vllm.py, generate-batch and model-generate)\<close>



text \<open>
  The external collaborators of the generator: the tokenizer (one encoding per context,
  and the decoded end-of-text token), the configured lengths and batch size (\<open>None\<close>
  for \<^verbatim>\<open>"auto"\<close>), the base options, whether a cache hook with a store is installed,
  and the inference engine. The engine is given the number of calls made so far and the
  call, and returns the text of the first candidate of every prompt, or raises.
\<close>

record engine_call =
  prompts :: "nat list list"
  stop :: "pyval list"
  sampling :: kwargs

record backend =
  tokenize :: "string \<Rightarrow> nat list"
  eos_text :: string
  max_length :: int
  max_gen_toks :: pyval
  batch_size :: "int option"
  base_kwargs :: kwargs
  data_parallel_size :: int
  cache_hook :: bool
  engine :: "nat \<Rightarrow> engine_call \<Rightarrow> error + string list"

text \<open>
  The state that a generation call changes: the requests with their result slots, the
  log of engine calls, and the cache store behind the cache hook.
\<close>

record gen_state =
  reqs :: "request list"
  calls :: "engine_call list"
  cache :: store



















section \<open>Properties of stop-sequence truncation\<close>











section \<open>Properties of the option dictionaries\<close>

lemma map_of_dict_set: "map_of (dict_set d k v) = (map_of d)(k \<mapsto> v)"
  by (induction d) (auto simp: fun_eq_iff)

lemma map_of_dict_pop: "map_of (dict_pop d k) = (map_of d)(k := None)"
  by (induction d) (auto simp: dict_pop_def fun_eq_iff)

lemma map_of_foldl_dict_set:
  "distinct (map fst b) \<Longrightarrow>
   map_of (foldl (\<lambda>d (k, v). dict_set d k v) a b) = map_of a ++ map_of b"
proof (induction b arbitrary: a)
  case Nil
  then show ?case by simp
next
  case (Cons p b)
  obtain k v where p: "p = (k, v)" by (cases p)
  from Cons.prems p have nk: "map_of b k = None" and d: "distinct (map fst b)"
    by (auto simp: map_of_eq_None_iff)
  have step: "map_of (dict_set a k v) ++ map_of b = map_of a ++ map_of ((k, v) # b)"
  proof
    fix x
    show "(map_of (dict_set a k v) ++ map_of b) x = (map_of a ++ map_of ((k, v) # b)) x"
      using nk by (cases "x = k") (simp_all add: map_of_dict_set map_add_def split: option.splits)
  qed
  have "map_of (foldl (\<lambda>d (k, v). dict_set d k v) a (p # b))
          = map_of (foldl (\<lambda>d (k, v). dict_set d k v) (dict_set a k v) b)"
    using p by simp
  also have "\<dots> = map_of (dict_set a k v) ++ map_of b"
    using d by (rule Cons.IH)
  also have "\<dots> = map_of a ++ map_of ((k, v) # b)"
    by (rule step)
  finally show ?case using p by (simp only:)
qed

lemma map_of_dict_merge:
  "distinct (map fst b) \<Longrightarrow> map_of (dict_merge a b) = map_of a ++ map_of b"
  unfolding dict_merge_def by (rule map_of_foldl_dict_set)

lemma take_stop_sequences_other:
  "take_stop_sequences kw = Inr (until, kw') \<Longrightarrow>
   map_of kw' = (map_of kw)(''stop_sequences'' := None)"
  by (auto simp: take_stop_sequences_def map_of_dict_pop fun_eq_iff
      split: option.splits pyval.splits)

lemma rename_max_at:
  "map_of (rename_max_new_tokens kw) k =
     (if k = ''max_new_tokens'' then None
      else if k = ''max_tokens'' then
        (case map_of kw ''max_new_tokens'' of None \<Rightarrow> map_of kw ''max_tokens'' | Some v \<Rightarrow> Some v)
      else map_of kw k)"
  by (simp add: rename_max_new_tokens_def map_of_dict_set map_of_dict_pop split: option.splits)

lemma rename_min_at:
  "map_of (rename_min_new_tokens kw) k =
     (if k = ''min_new_tokens'' then None
      else if k = ''min_tokens'' then
        (case map_of kw ''min_new_tokens'' of None \<Rightarrow> map_of kw ''min_tokens'' | Some v \<Rightarrow> Some v)
      else map_of kw k)"
  by (simp add: rename_min_new_tokens_def map_of_dict_set map_of_dict_pop split: option.splits)

lemma rename_decoding_at:
  "map_of (rename_decoding_method kw) k =
     (if k = ''decoding_method'' then None
      else if k = ''do_sample'' then
        (case map_of kw ''decoding_method'' of
           None \<Rightarrow> map_of kw ''do_sample''
         | Some v \<Rightarrow> Some (PBool (v = PStr ''sample'')))
      else map_of kw k)"
  by (simp add: rename_decoding_method_def map_of_dict_set map_of_dict_pop split: option.splits)

lemma unpack_at:
  assumes "unpack_gen_kwargs base_kw max_gen gen_kwargs = Inr (until, kw)"
  shows "map_of kw k =
     (let m = map_of (dict_merge base_kw gen_kwargs) in
      if k = ''decoding_method'' \<or> k = ''min_new_tokens'' \<or> k = ''max_new_tokens'' \<or>
         k = ''stop_sequences'' then None
      else if k = ''do_sample'' then
        (case m ''decoding_method'' of
           None \<Rightarrow> m ''do_sample'' | Some v \<Rightarrow> Some (PBool (v = PStr ''sample'')))
      else if k = ''min_tokens'' then
        (case m ''min_new_tokens'' of None \<Rightarrow> m ''min_tokens'' | Some v \<Rightarrow> Some v)
      else if k = ''max_tokens'' then
        Some (case m ''max_new_tokens'' of None \<Rightarrow> max_gen | Some v \<Rightarrow> v)
      else m k)"
proof -
  let ?m = "dict_merge base_kw gen_kwargs"
  obtain kw0 where ts: "take_stop_sequences ?m = Inr (until, kw0)"
    and kw: "kw = rename_decoding_method (rename_min_new_tokens
               (rename_max_new_tokens (dict_set kw0 ''max_tokens'' max_gen)))"
    using assms by (auto simp: unpack_gen_kwargs_def split: sum.splits)
  have m0: "map_of kw0 = (map_of ?m)(''stop_sequences'' := None)"
    using ts by (rule take_stop_sequences_other)
  show ?thesis
    unfolding kw Let_def
    by (simp add: rename_decoding_at rename_min_at rename_max_at map_of_dict_set m0
        split: option.splits)
qed

lemma map_of_modify_temperature:
  "map_of (modify_gen_kwargs kw) ''temperature'' =
     (if map_of kw ''do_sample'' = Some (PBool False) \<or> map_of kw ''temperature'' = None
      then Some (PFloat ''0.0'') else map_of kw ''temperature'')"
  by (auto simp: modify_gen_kwargs_def Let_def map_of_dict_set map_of_dict_pop
      dict_get_default_def split: option.splits)

lemma map_of_modify_do_sample: "map_of (modify_gen_kwargs kw) ''do_sample'' = None"
  by (auto simp: modify_gen_kwargs_def Let_def map_of_dict_set map_of_dict_pop)

section \<open>Properties of the serialisation\<close>







section \<open>Properties of the log-likelihood input\<close>

lemma input_left_truncated:
  "0 < max_len \<Longrightarrow>
   fst (loglikelihood_input max_len ctx cont) =
     drop (length (ctx @ cont) - nat max_len) (ctx @ cont)"
  by (simp add: loglikelihood_input_def py_slice_from_def)

lemma boundary_value:
  assumes "0 < max_len" "int (length cont) \<le> max_len"
  shows "snd (loglikelihood_input max_len ctx cont) =
           int (length (fst (loglikelihood_input max_len ctx cont))) - int (length cont)"
proof (cases "int (length ctx) + int (length cont) \<le> max_len")
  case True
  then show ?thesis using assms
    by (simp add: loglikelihood_input_def py_slice_from_def)
next
  case False
  then show ?thesis using assms
    by (simp add: loglikelihood_input_def py_slice_from_def)
qed

lemma slice_last:
  assumes "length cont \<le> length xs"
  shows "py_slice_from (int (length xs) - int (length cont)) xs = drop (length xs - length cont) xs"
  using assms by (simp add: py_slice_from_def nat_diff_distrib')

lemma input_ends_with_continuation:
  assumes "0 < max_len" "int (length cont) \<le> max_len"
  shows "length cont \<le> length (fst (loglikelihood_input max_len ctx cont)) \<and>
    drop (length (fst (loglikelihood_input max_len ctx cont)) - length cont)
      (fst (loglikelihood_input max_len ctx cont)) = cont"
  using assms by (auto simp: input_left_truncated)

lemma sum_logprobs_all:
  "\<forall>p \<in> set ps. \<exists>d v. snd p = Some d \<and> d (fst p) = Some v \<Longrightarrow>
   sum_logprobs ps acc = Inr (acc + sum_list (map (\<lambda>p. the (the (snd p) (fst p))) ps))"
proof (induction ps arbitrary: acc)
  case Nil
  then show ?case by simp
next
  case (Cons p ps)
  obtain t od where p: "p = (t, od)" by (cases p)
  from Cons.prems p obtain d v where d: "od = Some d" "d t = Some v" by auto
  have "sum_logprobs ps (acc + v)
      = Inr (acc + v + sum_list (map (\<lambda>p. the (the (snd p) (fst p))) ps))"
    using Cons.prems by (intro Cons.IH) simp
  with p d show ?case by (simp add: add.assoc)
qed

lemma zip_drop_nth:
  "length xs = length ys \<Longrightarrow>
   zip (drop c xs) (drop c ys) = map (\<lambda>j. (xs ! j, ys ! j)) [c..<length xs]"
  by (rule nth_equalityI) simp_all

section \<open>Properties of the round-robin partition\<close>

lemma islice_from_unfold:
  "0 < n \<Longrightarrow> islice_from i n xs =
     (if i < length xs then xs ! i # islice_from i n (drop n xs) else [])"
proof (cases "i < length xs")
  case True
  assume n: "0 < n"
  from True have "drop i xs = xs ! i # drop (Suc i) xs"
    by (simp add: Cons_nth_drop_Suc)
  moreover have "drop (n - 1) (drop (Suc i) xs) = drop i (drop n xs)"
    using n by (simp add: add.commute)
  ultimately show ?thesis using True by (simp add: islice_from_def)
next
  case False
  then show ?thesis by (simp add: islice_from_def)
qed

lemma undistribute_empties: "list_all (\<lambda>l. l = []) ls \<Longrightarrow> undistribute ls = []"
  by (simp add: undistribute.simps)


lemma islice_from_Nil: "islice_from i n [] = []"
  by (simp add: islice_from_def)

lemma filter_nonempty_parts:
  assumes "0 < n"
  shows "filter (\<lambda>l. l \<noteq> []) (map (\<lambda>i. islice_from i n xs) [0..<k])
       = map (\<lambda>i. islice_from i n xs) [0..<min k (length xs)]"
proof (induction k)
  case 0
  then show ?case by simp
next
  case (Suc k)
  have ne: "islice_from k n xs \<noteq> [] \<longleftrightarrow> k < length xs"
    using islice_from_unfold [OF assms, of k xs] by simp
  show ?case
  proof (cases "k < length xs")
    case True
    with Suc ne show ?thesis by (simp add: min_def)
  next
    case False
    with Suc ne show ?thesis by (simp add: min_def)
  qed
qed

lemma heads_of_parts:
  assumes "0 < n" "m \<le> length xs"
  shows "map hd (map (\<lambda>i. islice_from i n xs) [0..<m]) = take m xs"
proof (rule nth_equalityI)
  show "length (map hd (map (\<lambda>i. islice_from i n xs) [0..<m])) = length (take m xs)"
    using assms by simp
next
  fix i assume "i < length (map hd (map (\<lambda>i. islice_from i n xs) [0..<m]))"
  then have i: "i < m" by simp
  with assms have "i < length xs" by simp
  then have "hd (islice_from i n xs) = xs ! i"
    using islice_from_unfold [OF assms(1), of i xs] by simp
  with i show "map hd (map (\<lambda>i. islice_from i n xs) [0..<m]) ! i = take m xs ! i"
    by simp
qed

lemma tails_of_parts:
  assumes "0 < n" "m \<le> length xs"
  shows "map tl (map (\<lambda>i. islice_from i n xs) [0..<m])
       = map (\<lambda>i. islice_from i n (drop n xs)) [0..<m]"
proof -
  have "tl (islice_from i n xs) = islice_from i n (drop n xs)" if "i < m" for i
  proof -
    from that assms have "i < length xs" by simp
    then show ?thesis using islice_from_unfold [OF assms(1), of i xs] by simp
  qed
  then show ?thesis by simp
qed

lemma undistribute_parts:
  assumes "0 < n"
  shows "undistribute (map (\<lambda>i. islice_from i n xs) [0..<n]) = xs"
proof (induction xs rule: length_induct)
  case (1 xs)
  let ?P = "map (\<lambda>i. islice_from i n xs) [0..<n]"
  let ?m = "min n (length xs)"
  show ?case
  proof (cases "xs = []")
    case True
    then show ?thesis
      by (simp add: undistribute_empties islice_from_Nil list_all_iff)
  next
    case False
    have "islice_from 0 n xs \<in> set ?P" using assms by force
    moreover have "islice_from 0 n xs \<noteq> []"
      using islice_from_unfold [OF assms, of 0 xs] False by simp
    ultimately have notall: "\<not> list_all (\<lambda>l. l = []) ?P"
      unfolding list_all_iff by blast
    have f: "filter (\<lambda>l. l \<noteq> []) ?P = map (\<lambda>i. islice_from i n xs) [0..<?m]"
      using assms by (rule filter_nonempty_parts)
    have h: "map hd (filter (\<lambda>l. l \<noteq> []) ?P) = take ?m xs"
      unfolding f using assms by (rule heads_of_parts) simp
    have t: "map tl (filter (\<lambda>l. l \<noteq> []) ?P) = map (\<lambda>i. islice_from i n (drop n xs)) [0..<?m]"
      unfolding f using assms by (rule tails_of_parts) simp
    have u: "undistribute ?P = take ?m xs @ undistribute (map (\<lambda>i. islice_from i n (drop n xs)) [0..<?m])"
      using notall h t by (subst undistribute.simps) (simp only: if_False)
    show ?thesis
    proof (cases "n \<le> length xs")
      case True
      then have m: "?m = n" by simp
      have "length (drop n xs) < length xs" using assms False by simp
      with 1 have "undistribute (map (\<lambda>i. islice_from i n (drop n xs)) [0..<n]) = drop n xs"
        by blast
      with u m show ?thesis by simp
    next
      case False
      then have m: "?m = length xs" and d: "drop n xs = []" by simp_all
      have "undistribute (map (\<lambda>i. islice_from i n (drop n xs)) [0..<?m]) = []"
        by (rule undistribute_empties) (simp add: d islice_from_Nil list_all_iff)
      with u m show ?thesis by simp
    qed
  qed
qed

section \<open>Properties of the caching dispatcher\<close>

lemma fill_Nil: "fill xs [] = xs"
  by (induction xs) auto

lemma advance_skip:
  "p < length res \<Longrightarrow> res ! p \<noteq> PNone \<Longrightarrow> advance res p = advance res (Suc p)"
  by (subst advance.simps) simp

lemma advance_here: "p < length res \<Longrightarrow> res ! p = PNone \<Longrightarrow> advance res p = Some p"
  by (subst advance.simps) simp

lemma merge_skip:
  "p < length res \<Longrightarrow> res ! p \<noteq> PNone \<Longrightarrow>
   merge_results H attr rem res p db = merge_results H attr rem res (Suc p) db"
  by (cases rem) (simp_all add: advance_skip)

lemma merge_fill:
  "\<forall>r \<in> set rem. result r \<noteq> PNone \<Longrightarrow> length rem \<le> count_list xs PNone \<Longrightarrow>
   \<exists>db'. merge_results H attr rem (pre @ xs) (length pre) db
           = Inr (pre @ fill xs (map result rem), db')"
proof (induction xs arbitrary: pre rem db)
  case Nil
  then show ?case by simp
next
  case (Cons x xs)
  show ?case
  proof (cases rem)
    case Nil
    then show ?thesis by (simp add: fill_Nil)
  next
    case (Cons req rem')
    show ?thesis
    proof (cases "x = PNone")
      case False
      have "merge_results H attr rem (pre @ x # xs) (length pre) db
          = merge_results H attr rem (pre @ x # xs) (Suc (length pre)) db"
        using False by (intro merge_skip) simp_all
      also have "\<dots> = merge_results H attr rem ((pre @ [x]) @ xs) (length (pre @ [x])) db"
        by simp
      finally have eq: "merge_results H attr rem (pre @ x # xs) (length pre) db
          = merge_results H attr rem ((pre @ [x]) @ xs) (length (pre @ [x])) db" .
      have "length rem \<le> count_list xs PNone"
        using Cons.prems(2) False by simp
      from Cons.IH [OF Cons.prems(1) this, of "pre @ [x]" db]
      obtain db' where "merge_results H attr rem ((pre @ [x]) @ xs) (length (pre @ [x])) db
           = Inr ((pre @ [x]) @ fill xs (map result rem), db')" by blast
      with eq False show ?thesis by simp
    next
      case True
      let ?v = "result req"
      let ?db = "db(hash_args H attr req \<mapsto> ?v)"
      have v: "?v \<noteq> PNone" using Cons.prems(1) Cons by simp
      have adv: "advance (pre @ x # xs) (length pre) = Some (length pre)"
        using True by (intro advance_here) simp_all
      have step: "merge_results H attr rem (pre @ x # xs) (length pre) db
          = merge_results H attr rem' (pre @ ?v # xs) (length pre) ?db"
        unfolding Cons by (simp only: merge_results.simps adv option.case list_update_length)
      have "merge_results H attr rem' (pre @ ?v # xs) (length pre) ?db
          = merge_results H attr rem' (pre @ ?v # xs) (Suc (length pre)) ?db"
        using v by (intro merge_skip) simp_all
      also have "\<dots> = merge_results H attr rem' ((pre @ [?v]) @ xs) (length (pre @ [?v])) ?db"
        by simp
      finally have eq: "merge_results H attr rem (pre @ x # xs) (length pre) db
          = merge_results H attr rem' ((pre @ [?v]) @ xs) (length (pre @ [?v])) ?db"
        using step by simp
      have p1: "\<forall>r \<in> set rem'. result r \<noteq> PNone" using Cons.prems(1) Cons by simp
      have p2: "length rem' \<le> count_list xs PNone" using Cons.prems(2) Cons True by simp
      from Cons.IH [OF p1 p2, of "pre @ [?v]" ?db]
      obtain db' where "merge_results H attr rem' ((pre @ [?v]) @ xs) (length (pre @ [?v])) ?db
           = Inr ((pre @ [?v]) @ fill xs (map result rem'), db')" by blast
      with eq True Cons show ?thesis by simp
    qed
  qed
qed

lemma check_cached_ok:
  "\<forall>r \<in> set rs. \<not> exempt attr r \<longrightarrow> db (hash_args H attr r) \<noteq> Some PNone \<Longrightarrow>
   check_cached H attr db rs
     = Inr (map (slot H attr db) rs, filter (needs_run H attr db) rs)"
  by (induction rs) (auto simp: slot_def needs_run_def)

lemma check_cached_poison:
  "r \<in> set rs \<Longrightarrow> \<not> exempt attr r \<Longrightarrow> db (hash_args H attr r) = Some PNone \<Longrightarrow>
   check_cached H attr db rs = Inl AssertionError"
proof (induction rs)
  case Nil
  then show ?case by simp
next
  case (Cons a rs)
  have err: "check_cached H attr db xs = Inl e \<Longrightarrow> e = AssertionError" for xs e
    by (induction xs arbitrary: e) (auto split: if_splits sum.splits option.splits)
  show ?case
  proof (cases "r = a")
    case True
    with Cons.prems show ?thesis by simp
  next
    case False
    with Cons have "check_cached H attr db rs = Inl AssertionError" by simp
    then show ?thesis by (auto split: option.splits)
  qed
qed

lemma check_cached_Inr:
  "check_cached H attr db rs = Inr (res, rem) \<Longrightarrow>
   res = map (slot H attr db) rs \<and> rem = filter (needs_run H attr db) rs \<and>
   (\<forall>r \<in> set rs. \<not> exempt attr r \<longrightarrow> db (hash_args H attr r) \<noteq> Some PNone)"
proof (induction rs arbitrary: res rem)
  case Nil
  then show ?case by simp
next
  case (Cons a rs)
  then show ?case
    by (auto simp: slot_def needs_run_def split: if_splits sum.splits option.splits)
qed

lemma slot_None_iff:
  "\<not> exempt attr r \<longrightarrow> db (hash_args H attr r) \<noteq> Some PNone \<Longrightarrow>
   slot H attr db r = PNone \<longleftrightarrow> needs_run H attr db r"
  by (auto simp: slot_def needs_run_def)

lemma count_slots:
  "\<forall>r \<in> set rs. \<not> exempt attr r \<longrightarrow> db (hash_args H attr r) \<noteq> Some PNone \<Longrightarrow>
   count_list (map (slot H attr db) rs) PNone = length (filter (needs_run H attr db) rs)"
proof (induction rs)
  case Nil
  then show ?case by simp
next
  case (Cons a rs)
  then have "slot H attr db a = PNone \<longleftrightarrow> needs_run H attr db a"
    by (intro slot_None_iff) simp
  with Cons show ?case by simp
qed

lemma fill_slots_nth:
  "\<forall>r \<in> set rs. \<not> exempt attr r \<longrightarrow> db (hash_args H attr r) \<noteq> Some PNone \<Longrightarrow>
   i < length rs \<Longrightarrow>
   length (fill (map (slot H attr db) rs)
             (map f [k..<k + length (filter (needs_run H attr db) rs)])) = length rs \<and>
   fill (map (slot H attr db) rs)
     (map f [k..<k + length (filter (needs_run H attr db) rs)]) ! i
   = (if needs_run H attr db (rs ! i)
      then f (k + length (filter (needs_run H attr db) (take i rs)))
      else the (db (hash_args H attr (rs ! i))))"
proof (induction rs arbitrary: i k)
  case Nil
  then show ?case by simp
next
  case (Cons a rs)
  let ?m = "length (filter (needs_run H attr db) rs)"
  have sl: "slot H attr db a = PNone \<longleftrightarrow> needs_run H attr db a"
    using Cons.prems(1) by (intro slot_None_iff) simp
  have ok: "\<forall>r \<in> set rs. \<not> exempt attr r \<longrightarrow> db (hash_args H attr r) \<noteq> Some PNone"
    using Cons.prems(1) by simp
  have len: "length (fill (map (slot H attr db) rs) (map f [j..<j + ?m])) = length rs" for j
  proof (cases rs)
    case Nil
    then show ?thesis by simp
  next
    case (Cons b bs)
    then have "0 < length rs" by simp
    from Cons.IH [OF ok this, of j] show ?thesis by simp
  qed
  show ?case
  proof (cases "needs_run H attr db a")
    case True
    have "k < Suc (k + ?m)" by simp
    then have up: "[k..<Suc (k + ?m)] = k # [Suc k..<Suc (k + ?m)]"
      by (rule upt_conv_Cons)
    have f: "fill (map (slot H attr db) (a # rs))
        (map f [k..<k + length (filter (needs_run H attr db) (a # rs))])
      = f k # fill (map (slot H attr db) rs) (map f [Suc k..<Suc k + ?m])"
      using True sl by (simp add: up del: upt_Suc)
    show ?thesis
    proof (cases i)
      case 0
      with f True len [of "Suc k"] show ?thesis by simp
    next
      case (Suc j)
      with Cons.prems have j: "j < length rs" by simp
      from Cons.IH [OF ok j, of "Suc k"] f True Suc len [of "Suc k"] show ?thesis by simp
    qed
  next
    case False
    have f: "fill (map (slot H attr db) (a # rs))
        (map f [k..<k + length (filter (needs_run H attr db) (a # rs))])
      = slot H attr db a # fill (map (slot H attr db) rs) (map f [k..<k + ?m])"
      using False sl by simp
    show ?thesis
    proof (cases i)
      case 0
      have "slot H attr db a = the (db (hash_args H attr a))"
        using False by (simp add: slot_def)
      with f False len [of k] sl 0 show ?thesis by simp
    next
      case (Suc j)
      with Cons.prems have j: "j < length rs" by simp
      from Cons.IH [OF ok j, of k] f False Suc len [of k] show ?thesis by simp
    qed
  qed
qed

lemma result_set_results: "map result (set_results rs f) = map f [0..<length rs]"
  by (rule nth_equalityI) (simp_all add: set_results_def nth_enumerate_eq)

lemma advance_Some: "advance res p = Some q \<Longrightarrow> q < length res \<and> res ! q = PNone \<and> p \<le> q"
proof (induction res p rule: advance.induct)
  case (1 res resptr)
  show ?case
  proof (cases "length res \<le> resptr")
    case True
    then have "advance res resptr = None" by (subst advance.simps) simp
    with "1.prems" show ?thesis by simp
  next
    case False
    show ?thesis
    proof (cases "res ! resptr \<noteq> PNone")
      case True
      with False have "advance res resptr = advance res (Suc resptr)"
        by (intro advance_skip) simp_all
      with "1.prems" have "advance res (Suc resptr) = Some q" by simp
      with "1.IH" [OF False True] show ?thesis by simp
    next
      case nn: False
      with False have "advance res resptr = Some resptr"
        by (intro advance_here) simp_all
      with "1.prems" False nn show ?thesis by simp
    qed
  qed
qed

lemma merge_keeps:
  "merge_results H attr rem res p db = Inr (res', db') \<Longrightarrow>
   length res' = length res \<and> (\<forall>i < length res. res ! i \<noteq> PNone \<longrightarrow> res' ! i = res ! i)"
proof (induction rem arbitrary: res p db)
  case Nil
  then show ?case by simp
next
  case (Cons req rem)
  from Cons.prems obtain q where q: "advance res p = Some q"
    and m: "merge_results H attr rem (res[q := result req]) q
              (db(hash_args H attr req \<mapsto> result req)) = Inr (res', db')"
    by (auto split: option.splits)
  from advance_Some [OF q] have qn: "res ! q = PNone" by simp
  from Cons.IH [OF m] have l: "length res' = length res"
    and k: "\<forall>i < length res. res[q := result req] ! i \<noteq> PNone \<longrightarrow> res' ! i = res[q := result req] ! i"
    by simp_all
  have "res' ! i = res ! i" if "i < length res" "res ! i \<noteq> PNone" for i
  proof -
    from that qn have "i \<noteq> q" by auto
    with that k show ?thesis by simp
  qed
  with l show ?case by simp
qed

lemma dispatch_cached_kept:
  assumes "dispatch H lm attr requests (w, db) = Inr (out, w', db')"
    and "i < length requests"
    and "\<not> exempt attr (requests ! i)"
    and "db (hash_args H attr (requests ! i)) = Some v"
  shows "out ! i = (requests ! i)\<lparr>result := v\<rparr> \<and> v \<noteq> PNone"
proof -
  from assms(1) obtain res rem f db1 res' where
    c: "check_cached H attr db requests = Inr (res, rem)"
    and m: "merge_results H attr (set_results rem f) res 0 db1 = Inr (res', db')"
    and o: "out = map (\<lambda>(req, req_res). req\<lparr>result := req_res\<rparr>) (zip requests res')"
    by (auto simp: dispatch_def split: sum.splits prod.splits)
  from check_cached_Inr [OF c] have res: "res = map (slot H attr db) requests"
    and ok: "\<forall>r \<in> set requests. \<not> exempt attr r \<longrightarrow> db (hash_args H attr r) \<noteq> Some PNone"
    by simp_all
  from ok assms(2,3,4) have v: "v \<noteq> PNone" by force
  have "res ! i = v"
    using assms(2,3,4) by (simp add: res slot_def needs_run_def)
  with merge_keeps [OF m] v assms(2) res have "res' ! i = v" and "length res' = length requests"
    by simp_all
  with o assms(2) v show ?thesis by simp
qed

lemma dispatch_poison:
  assumes "r \<in> set requests" "\<not> exempt attr r" "db (hash_args H attr r) = Some PNone"
  shows "dispatch H lm attr requests (w, db) = Inl AssertionError"
  using assms check_cached_poison [of r requests attr db H] by (simp add: dispatch_def)

lemma dispatch_merge_lemma:
  assumes ok: "\<forall>r \<in> set requests. \<not> exempt attr r \<longrightarrow> db (hash_args H attr r) \<noteq> Some PNone"
    and run: "lm attr (filter (needs_run H attr db) requests) (w, db) = Inr (f, w1, db1)"
    and nn: "\<forall>k < length (filter (needs_run H attr db) requests). f k \<noteq> PNone"
  shows "\<exists>out db'. dispatch H lm attr requests (w, db) = Inr (out, w1, db') \<and>
           length out = length requests \<and>
           (\<forall>i < length requests.
              out ! i = (requests ! i)\<lparr>result :=
                (if needs_run H attr db (requests ! i)
                 then f (length (filter (needs_run H attr db) (take i requests)))
                 else the (db (hash_args H attr (requests ! i))))\<rparr> \<and>
              result (out ! i) \<noteq> PNone)"
proof -
  let ?rem = "filter (needs_run H attr db) requests"
  let ?res = "map (slot H attr db) requests"
  let ?vs = "map f [0..<length ?rem]"
  have c: "check_cached H attr db requests = Inr (?res, ?rem)"
    using ok by (rule check_cached_ok)
  have r: "map result (set_results ?rem f) = ?vs"
    by (rule result_set_results)
  have "set (map result (set_results ?rem f)) = f ` {0..<length ?rem}"
    unfolding r by simp
  with nn have p1: "\<forall>r \<in> set (set_results ?rem f). result r \<noteq> PNone"
    by force
  have p2: "length (set_results ?rem f) \<le> count_list ?res PNone"
    using count_slots [OF ok] by (simp add: set_results_def)
  from merge_fill [OF p1 p2, of H attr "[]" db1]
  obtain db' where m: "merge_results H attr (set_results ?rem f) ?res 0 db1
      = Inr (fill ?res ?vs, db')"
    unfolding r by auto
  let ?out = "map (\<lambda>(req, req_res). req\<lparr>result := req_res\<rparr>) (zip requests (fill ?res ?vs))"
  have d: "dispatch H lm attr requests (w, db) = Inr (?out, w1, db')"
    by (simp add: dispatch_def c run m)
  have fl: "length (fill ?res ?vs) = length requests"
  proof (cases requests)
    case Nil
    then show ?thesis by simp
  next
    case (Cons a list)
    then have "0 < length requests" by simp
    from fill_slots_nth [OF ok this, of f 0] show ?thesis by simp
  qed
  have nth: "?out ! i = (requests ! i)\<lparr>result :=
                (if needs_run H attr db (requests ! i)
                 then f (length (filter (needs_run H attr db) (take i requests)))
                 else the (db (hash_args H attr (requests ! i))))\<rparr> \<and>
              result (?out ! i) \<noteq> PNone" if i: "i < length requests" for i
  proof -
    from fill_slots_nth [OF ok i, of f 0]
    have v: "fill ?res ?vs ! i = (if needs_run H attr db (requests ! i)
                 then f (length (filter (needs_run H attr db) (take i requests)))
                 else the (db (hash_args H attr (requests ! i))))"
      by simp
    have o: "?out ! i = (requests ! i)\<lparr>result := fill ?res ?vs ! i\<rparr>"
      using i fl by simp
    have "fill ?res ?vs ! i \<noteq> PNone"
    proof (cases "needs_run H attr db (requests ! i)")
      case True
      have "length (filter (needs_run H attr db) (take i requests)) < length ?rem"
      proof -
        have "requests = take i requests @ requests ! i # drop (Suc i) requests"
          using i by (simp add: id_take_nth_drop)
        then have "?rem = filter (needs_run H attr db) (take i requests)
            @ filter (needs_run H attr db) (requests ! i # drop (Suc i) requests)"
          by (metis filter_append)
        with True show ?thesis by simp
      qed
      with nn v True show ?thesis by simp
    next
      case False
      then obtain x where x: "db (hash_args H attr (requests ! i)) = Some x"
        and ne: "\<not> exempt attr (requests ! i)"
        by (auto simp: needs_run_def)
      with ok i have "x \<noteq> PNone" by force
      with v False x show ?thesis by simp
    qed
    with o v show ?thesis by simp
  qed
  have ol: "length ?out = length requests" using fl by simp
  have all: "\<forall>i < length requests.
      ?out ! i = (requests ! i)\<lparr>result :=
                (if needs_run H attr db (requests ! i)
                 then f (length (filter (needs_run H attr db) (take i requests)))
                 else the (db (hash_args H attr (requests ! i))))\<rparr> \<and>
      result (?out ! i) \<noteq> PNone"
    by (intro allI impI) (rule nth)
  show ?thesis
    by (rule exI [of _ ?out], rule exI [of _ db'], intro conjI, rule d, rule ol, rule all)
qed

section \<open>Properties of batched generation\<close>




























section \<open>Claims on stop-sequence truncation\<close>




section \<open>Claims on the generation options\<close>

text \<open>
  C7 as stated: a decoding method \<open>sample\<close> yields stochastic decoding in the engine
  parameters. With the generator's default options and a request that asks for
  \<open>sample\<close> without a temperature, the parameters handed to the engine carry
  temperature \<open>0.0\<close> and no other trace of the decoding method: they are the
  parameters of a request that asks for \<open>greedy\<close>.
\<close>

theorem sample_decoding_counterexample:
  "sampling_kwargs [(''decoding_method'', PStr ''sample'')] (PInt 256)
     [(''decoding_method'', PStr ''sample'')]
   = Inr [(''max_tokens'', PInt 256), (''temperature'', PFloat ''0.0''),
          (''skip_special_tokens'', PBool False),
          (''spaces_between_special_tokens'', PBool False)] \<and>
   sampling_kwargs [(''decoding_method'', PStr ''sample'')] (PInt 256)
     [(''decoding_method'', PStr ''greedy'')]
   = sampling_kwargs [(''decoding_method'', PStr ''sample'')] (PInt 256)
     [(''decoding_method'', PStr ''sample'')]"
  by (simp add: sampling_kwargs_def unpack_gen_kwargs_def take_stop_sequences_def
      dict_merge_def dict_pop_def rename_max_new_tokens_def rename_min_new_tokens_def
      rename_decoding_method_def modify_gen_kwargs_def dict_get_default_def Let_def)

text \<open>
  C7 amended: when the options of a chunk unpack without error, a key of the
  per-request options overrides the same key of the defaults in the merged dictionary;
  \<open>max_tokens\<close> is the value of \<open>max_new_tokens\<close> when that option is given and
  the generator's \<open>max_gen\<close> otherwise; \<open>min_new_tokens\<close> becomes the engine's
  \<open>min_tokens\<close>; a decoding method becomes \<open>do_sample\<close>, true exactly for
  \<open>sample\<close>; every other option except the stop sequences passes unchanged. In the
  engine parameters a decoding method other than \<open>sample\<close> gives temperature
  \<open>0.0\<close>, and \<open>sample\<close> keeps the given temperature when there is one and gives
  temperature \<open>0.0\<close> when there is none.
\<close>

theorem gen_kwargs_merge:
  assumes "distinct (map fst gen_kwargs)"
    and "unpack_gen_kwargs base_kw max_gen gen_kwargs = Inr (until, kw)"
  shows
    "map_of (dict_merge base_kw gen_kwargs) k =
       (case map_of gen_kwargs k of Some v \<Rightarrow> Some v | None \<Rightarrow> map_of base_kw k) \<and>
     map_of kw ''max_tokens'' =
       Some (case map_of (dict_merge base_kw gen_kwargs) ''max_new_tokens'' of
               Some v \<Rightarrow> v | None \<Rightarrow> max_gen) \<and>
     map_of kw ''max_new_tokens'' = None \<and>
     map_of kw ''min_tokens'' =
       (case map_of (dict_merge base_kw gen_kwargs) ''min_new_tokens'' of
          Some v \<Rightarrow> Some v
        | None \<Rightarrow> map_of (dict_merge base_kw gen_kwargs) ''min_tokens'') \<and>
     map_of kw ''min_new_tokens'' = None \<and>
     (map_of (dict_merge base_kw gen_kwargs) ''decoding_method'' = Some d \<longrightarrow>
        map_of kw ''do_sample'' = Some (PBool (d = PStr ''sample'')) \<and>
        map_of kw ''decoding_method'' = None \<and>
        map_of (modify_gen_kwargs kw) ''temperature'' =
          (if d = PStr ''sample''
           then (case map_of (dict_merge base_kw gen_kwargs) ''temperature'' of
                   Some t \<Rightarrow> Some t | None \<Rightarrow> Some (PFloat ''0.0''))
           else Some (PFloat ''0.0''))) \<and>
     (k \<notin> {''stop_sequences'', ''max_tokens'', ''max_new_tokens'', ''min_tokens'',
            ''min_new_tokens'', ''decoding_method'', ''do_sample''} \<longrightarrow>
        map_of kw k = map_of (dict_merge base_kw gen_kwargs) k)"
proof -
  let ?m = "dict_merge base_kw gen_kwargs"
  note at = unpack_at [OF assms(2), unfolded Let_def]
  have merged: "map_of ?m k =
      (case map_of gen_kwargs k of Some v \<Rightarrow> Some v | None \<Rightarrow> map_of base_kw k)"
    using assms(1) by (simp add: map_of_dict_merge map_add_def)
  have maxt: "map_of kw ''max_tokens'' =
      Some (case map_of ?m ''max_new_tokens'' of Some v \<Rightarrow> v | None \<Rightarrow> max_gen)"
    by (simp add: at split: option.splits)
  have maxn: "map_of kw ''max_new_tokens'' = None"
    by (simp add: at)
  have mint: "map_of kw ''min_tokens'' =
      (case map_of ?m ''min_new_tokens'' of Some v \<Rightarrow> Some v | None \<Rightarrow> map_of ?m ''min_tokens'')"
    by (simp add: at split: option.splits)
  have minn: "map_of kw ''min_new_tokens'' = None"
    by (simp add: at)
  have dec: "map_of kw ''do_sample'' = Some (PBool (d = PStr ''sample'')) \<and>
        map_of kw ''decoding_method'' = None \<and>
        map_of kw ''temperature'' = map_of ?m ''temperature''"
    if "map_of ?m ''decoding_method'' = Some d"
    using that by (simp add: at)
  have temp: "map_of (modify_gen_kwargs kw) ''temperature'' =
          (if d = PStr ''sample''
           then (case map_of ?m ''temperature'' of
                   Some t \<Rightarrow> Some t | None \<Rightarrow> Some (PFloat ''0.0''))
           else Some (PFloat ''0.0''))"
    if "map_of ?m ''decoding_method'' = Some d"
    using dec [OF that] by (auto simp: map_of_modify_temperature split: option.splits)
  have other: "map_of kw k = map_of ?m k"
    if "k \<notin> {''stop_sequences'', ''max_tokens'', ''max_new_tokens'', ''min_tokens'',
            ''min_new_tokens'', ''decoding_method'', ''do_sample''}"
    using that by (simp add: at)
  from merged maxt maxn mint minn dec temp other show ?thesis by blast
qed

theorem gen_kwargs_merge_witness:
  "distinct (map fst [(''max_new_tokens'', PInt 5), (''min_new_tokens'', PInt 2),
                      (''stop_sequences'', PStr ''.''), (''top_k'', PInt 50)]) \<and>
   unpack_gen_kwargs [(''decoding_method'', PStr ''sample''), (''temperature'', PFloat ''0.7'')]
     (PInt 256)
     [(''max_new_tokens'', PInt 5), (''min_new_tokens'', PInt 2),
      (''stop_sequences'', PStr ''.''), (''top_k'', PInt 50)]
   = Inr (Some [PStr ''.''],
          [(''temperature'', PFloat ''0.7''), (''top_k'', PInt 50), (''max_tokens'', PInt 5),
           (''min_tokens'', PInt 2), (''do_sample'', PBool True)]) \<and>
   map_of (modify_gen_kwargs
       [(''temperature'', PFloat ''0.7''), (''top_k'', PInt 50), (''max_tokens'', PInt 5),
        (''min_tokens'', PInt 2), (''do_sample'', PBool True)]) ''temperature''
   = Some (PFloat ''0.7'')"
proof -
  let ?base = "[(''decoding_method'', PStr ''sample''), (''temperature'', PFloat ''0.7'')]"
  let ?req = "[(''max_new_tokens'', PInt 5), (''min_new_tokens'', PInt 2),
               (''stop_sequences'', PStr ''.''), (''top_k'', PInt 50)]"
  let ?kw = "[(''temperature'', PFloat ''0.7''), (''top_k'', PInt 50), (''max_tokens'', PInt 5),
              (''min_tokens'', PInt 2), (''do_sample'', PBool True)]"
  have m: "dict_merge ?base ?req =
      [(''decoding_method'', PStr ''sample''), (''temperature'', PFloat ''0.7''),
       (''max_new_tokens'', PInt 5), (''min_new_tokens'', PInt 2),
       (''stop_sequences'', PStr ''.''), (''top_k'', PInt 50)]"
    by (simp add: dict_merge_def)
  have h1: "distinct (map fst ?req)" by simp
  have h2: "unpack_gen_kwargs ?base (PInt 256) ?req = Inr (Some [PStr ''.''], ?kw)"
    by (simp add: unpack_gen_kwargs_def m take_stop_sequences_def
        dict_pop_def rename_max_new_tokens_def rename_min_new_tokens_def
        rename_decoding_method_def)
  have h3: "map_of (dict_merge ?base ?req) ''decoding_method'' = Some (PStr ''sample'')"
    by (simp add: m)
  from gen_kwargs_merge [where k = "''top_k''" and d = "PStr ''sample''", OF h1 h2] h3
  have "map_of (modify_gen_kwargs ?kw) ''temperature'' = Some (PFloat ''0.7'')"
    by (simp add: m)
  with h1 h2 show ?thesis by blast
qed

section \<open>Claims on the cache key\<close>




section \<open>Claims on log-likelihood scoring\<close>

text \<open>
  C5 as stated: also when truncation removes the entire context and part of the
  continuation, the summed log-probabilities cover as many continuation tokens as
  remain. With a maximum length of 4, the context \<open>[1]\<close> and the continuation
  \<open>[2, 3, 4, 5, 6]\<close> the model input is \<open>[3, 4, 5, 6]\<close>, all of it continuation,
  and the boundary is \<open>-1\<close>: the slice from \<open>-1\<close> keeps the last token alone, and
  the sum is the log-probability of token \<open>6\<close> only.
\<close>

theorem loglikelihood_boundary_counterexample:
  "loglikelihood_input 4 [1] [2, 3, 4, 5, 6] = ([3, 4, 5, 6], - 1) \<and>
   scored_tokens [3, 4, 5, 6] (- 1) = [6] \<and>
   parse_logprobs [3, 4, 5, 6]
     [None, Some [4 \<mapsto> 10], Some [5 \<mapsto> 20], Some [6 \<mapsto> 30]] (- 1) = Inr (30 :: int)"
  by (simp add: loglikelihood_input_def py_slice_from_def scored_tokens_def parse_logprobs_def)

text \<open>
  C5 amended: the model input is the context followed by the continuation, cut from the
  left to the maximum context length. When the context is not empty and the continuation
  is shorter than the maximum context length, the adjusted boundary is at least 1, the
  scored tokens are exactly the continuation's tokens, all of them, and, the engine
  having given a log-probability for every input token after the first, the result is
  the sum of the log-probabilities of the continuation's tokens at their positions. The
  cases in which the boundary is below 1 are left out.
\<close>

theorem loglikelihood_truncation:
  assumes "context_enc \<noteq> []"
    and "int (length continuation_enc) < max_len"
    and "loglikelihood_input max_len context_enc continuation_enc = (inp, ctxlen)"
    and "length outputs = length inp"
    and "\<forall>j. 1 \<le> j \<and> j < length inp \<longrightarrow> (\<exists>d v. outputs ! j = Some d \<and> d (inp ! j) = Some v)"
  shows "inp = drop (length (context_enc @ continuation_enc) - nat max_len)
                 (context_enc @ continuation_enc) \<and>
         1 \<le> ctxlen \<and>
         scored_tokens inp ctxlen = continuation_enc \<and>
         length [nat ctxlen..<length inp] = length continuation_enc \<and>
         parse_logprobs inp outputs ctxlen =
           Inr (sum_list (map (\<lambda>j. the (the (outputs ! j) (inp ! j)))
                            [nat ctxlen..<length inp]) :: 'a :: monoid_add)"
proof -
  have pos: "0 < max_len" and le: "int (length continuation_enc) \<le> max_len"
    using assms(2) by simp_all
  have inp: "inp = fst (loglikelihood_input max_len context_enc continuation_enc)"
    and ctxlen: "ctxlen = snd (loglikelihood_input max_len context_enc continuation_enc)"
    using assms(3) by simp_all
  have 1: "inp = drop (length (context_enc @ continuation_enc) - nat max_len)
                   (context_enc @ continuation_enc)"
    unfolding inp using pos by (rule input_left_truncated)
  have b: "ctxlen = int (length inp) - int (length continuation_enc)"
    unfolding inp ctxlen using pos le by (rule boundary_value)
  have e: "length continuation_enc \<le> length inp"
    and d: "drop (length inp - length continuation_enc) inp = continuation_enc"
    unfolding inp using input_ends_with_continuation [OF pos le] by simp_all
  have li: "length inp = min (length context_enc + length continuation_enc) (nat max_len)"
    unfolding 1 by simp
  have c1: "1 \<le> ctxlen"
  proof -
    have "0 < length context_enc" using assms(1) by simp
    then have "length continuation_enc < length context_enc + length continuation_enc" by simp
    moreover have "length continuation_enc < nat max_len" using assms(2) by simp
    ultimately have "length continuation_enc < length inp" unfolding li by simp
    then show ?thesis unfolding b by simp
  qed
  have 2: "scored_tokens inp ctxlen = continuation_enc"
    unfolding scored_tokens_def b using slice_last [OF e] d by simp
  have n: "nat ctxlen = length inp - length continuation_enc"
    unfolding b using e by (simp add: nat_diff_distrib')
  have 3: "length [nat ctxlen..<length inp] = length continuation_enc"
    unfolding n using e by simp
  have s: "py_slice_from ctxlen xs = drop (nat ctxlen) xs" for xs :: "'b list"
    using c1 by (simp add: py_slice_from_def)
  have z: "zip (scored_tokens inp ctxlen) (py_slice_from ctxlen outputs)
      = map (\<lambda>j. (inp ! j, outputs ! j)) [nat ctxlen..<length inp]"
    unfolding scored_tokens_def s using assms(4) by (intro zip_drop_nth) simp
  have ok: "\<forall>p \<in> set (map (\<lambda>j. (inp ! j, outputs ! j)) [nat ctxlen..<length inp]).
      \<exists>d v. snd p = Some d \<and> d (fst p) = Some v"
  proof
    fix p assume "p \<in> set (map (\<lambda>j. (inp ! j, outputs ! j)) [nat ctxlen..<length inp])"
    then obtain j where j: "nat ctxlen \<le> j" "j < length inp" and p: "p = (inp ! j, outputs ! j)"
      by auto
    from j c1 have "1 \<le> j" by linarith
    with assms(5) j p show "\<exists>d v. snd p = Some d \<and> d (fst p) = Some v" by simp
  qed
  have 4: "parse_logprobs inp outputs ctxlen =
           Inr (sum_list (map (\<lambda>j. the (the (outputs ! j) (inp ! j)))
                            [nat ctxlen..<length inp]) :: 'a)"
    unfolding parse_logprobs_def z using sum_logprobs_all [OF ok, of 0]
    by (simp add: comp_def)
  from 1 c1 2 3 4 show ?thesis by blast
qed

theorem loglikelihood_truncation_witness:
  "[1, 2, 3 :: nat] \<noteq> [] \<and> int (length [4, 5, 6 :: nat]) < 4 \<and>
   loglikelihood_input 4 [1, 2, 3] [4, 5, 6] = ([3, 4, 5, 6], 1) \<and>
   scored_tokens [3, 4, 5, 6] 1 = [4, 5, 6] \<and>
   parse_logprobs [3, 4, 5, 6]
     [None, Some [4 \<mapsto> 10], Some [5 \<mapsto> 20], Some [6 \<mapsto> 30]] 1 = Inr (60 :: int)"
proof -
  let ?outputs = "[None, Some [4 \<mapsto> 10 :: int], Some [5 \<mapsto> 20], Some [6 \<mapsto> 30]]
                    :: (nat \<rightharpoonup> int) option list"
  let ?inp = "[3, 4, 5, 6 :: nat]"
  have h1: "[1, 2, 3 :: nat] \<noteq> []" by simp
  have h2: "int (length [4, 5, 6 :: nat]) < 4" by simp
  have h3: "loglikelihood_input 4 [1, 2, 3] [4, 5, 6] = (?inp, 1)"
    by (simp add: loglikelihood_input_def py_slice_from_def)
  have h4: "length ?outputs = length ?inp"
    by simp
  have h5: "\<forall>j. 1 \<le> j \<and> j < length ?inp \<longrightarrow>
              (\<exists>d v. ?outputs ! j = Some d \<and> d (?inp ! j) = Some v)"
  proof (intro allI impI)
    fix j :: nat assume "1 \<le> j \<and> j < length ?inp"
    then consider "j = 1" | "j = 2" | "j = 3" by force
    then show "\<exists>d v. ?outputs ! j = Some d \<and> d (?inp ! j) = Some v"
      by cases (simp_all add: numeral_2_eq_2 numeral_3_eq_3)
  qed
  have u: "[nat 1..<length ?inp] = [1, 2, 3]"
    by (simp add: upt_rec)
  from loglikelihood_truncation [OF h1 h2 h3 h4 h5]
  have s: "scored_tokens ?inp 1 = [4, 5, 6]"
    and p: "parse_logprobs ?inp ?outputs 1 =
      Inr (sum_list (map (\<lambda>j. the (the (?outputs ! j) (?inp ! j))) [nat 1..<length ?inp]))"
    by blast+
  have "parse_logprobs ?inp ?outputs 1 = Inr 60"
    unfolding p u by (simp add: numeral_2_eq_2 numeral_3_eq_3)
  with h1 h2 h3 s show ?thesis by blast
qed

section \<open>Claims on distributing and undistributing\<close>

text \<open>
  C8: for every \<open>n \<ge> 1\<close> and every list of items, of any length, \<open>distribute\<close>
  returns \<open>n\<close> partitions and \<open>undistribute\<close> applied to them returns exactly
  the original list.
\<close>

theorem distribute_round_trip:
  "1 \<le> n \<Longrightarrow>
   (\<exists>parts. distribute n items = Inr parts \<and> length parts = nat n \<and>
            undistribute parts = items)"
  by (simp add: distribute_def undistribute_parts)

theorem distribute_round_trip_witness:
  "(1 :: int) \<le> 3 \<and>
   distribute 3 [1, 2, 3, 4, 5, 6, 7 :: nat] = Inr [[1, 4, 7], [2, 5], [3, 6]] \<and>
   undistribute [[1, 4, 7], [2, 5], [3, 6 :: nat]] = [1, 2, 3, 4, 5, 6, 7]"
proof -
  have h: "(1 :: int) \<le> 3" by simp
  have d: "distribute 3 [1, 2, 3, 4, 5, 6, 7 :: nat] = Inr [[1, 4, 7], [2, 5], [3, 6]]"
    by code_simp
  from distribute_round_trip [OF h, of "[1, 2, 3, 4, 5, 6, 7 :: nat]"] d h
  show ?thesis by simp
qed

section \<open>Claims on the caching dispatcher\<close>

text \<open>
  C1 as stated: for every dispatch call, when the call returns every request has its
  result set, and position \<open>i\<close> holds the value computed for request \<open>i\<close>.
  The merge loop takes \<open>PNone\<close> in \<^verbatim>\<open>res\<close> for a free slot. When the generator
  returns and has left no result on the first of two uncached requests and \<open>y\<close> on
  the second, the first slot stays free after the first request, the second request
  fills it, and the call returns with \<open>y\<close> on the first request and no result on
  the second.
\<close>

theorem dispatch_unset_result_counterexample:
  "dispatch (\<lambda>s. s) (\<lambda>attr rs s. Inr (\<lambda>k. if k = 0 then PNone else PStr ''y'', s))
     ''generate_batch''
     [\<lparr>args = [PStr ''a''], kwargs = [], result = PNone\<rparr>,
      \<lparr>args = [PStr ''b''], kwargs = [], result = PNone\<rparr>]
     ((), Map.empty)
   = Inr ([\<lparr>args = [PStr ''a''], kwargs = [], result = PStr ''y''\<rparr>,
           \<lparr>args = [PStr ''b''], kwargs = [], result = PNone\<rparr>],
          (),
          [hash_args (\<lambda>s. s) ''generate_batch''
             \<lparr>args = [PStr ''a''], kwargs = [], result = PNone\<rparr> \<mapsto> PNone,
           hash_args (\<lambda>s. s) ''generate_batch''
             \<lparr>args = [PStr ''b''], kwargs = [], result = PNone\<rparr> \<mapsto> PStr ''y''])"
  by (simp add: dispatch_def exempt_def set_results_def advance_here hash_args_def
      hash_input_def)

text \<open>
  C1 amended: take a dispatch call in which no stored value that is read is \<open>PNone\<close>,
  the generator returns from its one call on the remaining requests, and it has set a
  result other than \<open>PNone\<close> on each of them. Then the call returns, the output has
  one request per input request, in the input order, with args and kwargs unchanged and
  a result that is set: at position \<open>i\<close> the stored value if request \<open>i\<close> was
  resolved from the cache, and otherwise the result the generator left on the
  \<open>k\<close>-th request it was given, where \<open>k\<close> is the number of unresolved
  requests before position \<open>i\<close>. The merge goes by position; no key is looked up
  again for it.
\<close>

theorem dispatch_merge:
  assumes "\<forall>r \<in> set requests. \<not> exempt attr r \<longrightarrow> db (hash_args H attr r) \<noteq> Some PNone"
    and "lm attr (filter (needs_run H attr db) requests) (w, db) = Inr (f, w1, db1)"
    and "\<forall>k < length (filter (needs_run H attr db) requests). f k \<noteq> PNone"
  shows "\<exists>out db'. dispatch H lm attr requests (w, db) = Inr (out, w1, db') \<and>
           length out = length requests \<and>
           (\<forall>i < length requests.
              out ! i = (requests ! i)\<lparr>result :=
                (if needs_run H attr db (requests ! i)
                 then f (length (filter (needs_run H attr db) (take i requests)))
                 else the (db (hash_args H attr (requests ! i))))\<rparr> \<and>
              result (out ! i) \<noteq> PNone)"
  using assms by (rule dispatch_merge_lemma)

theorem dispatch_merge_witness:
  "\<exists>out db'.
     dispatch (\<lambda>s. s) (\<lambda>attr rs s. Inr (\<lambda>k. PStr (if k = 0 then ''x'' else ''y''), s))
       ''generate_batch''
       [\<lparr>args = [PStr ''a''], kwargs = [], result = PNone\<rparr>,
        \<lparr>args = [PStr ''b''], kwargs = [], result = PNone\<rparr>,
        \<lparr>args = [PStr ''c''], kwargs = [(''decoding_method'', PStr ''sample'')], result = PNone\<rparr>,
        \<lparr>args = [PStr ''d''], kwargs = [], result = PNone\<rparr>]
       ((),
        [hash_args (\<lambda>s. s) ''generate_batch'' \<lparr>args = [PStr ''a''], kwargs = [], result = PNone\<rparr>
           \<mapsto> PStr ''A'',
         hash_args (\<lambda>s. s) ''generate_batch''
           \<lparr>args = [PStr ''c''], kwargs = [(''decoding_method'', PStr ''sample'')], result = PNone\<rparr>
           \<mapsto> PStr ''old'',
         hash_args (\<lambda>s. s) ''generate_batch'' \<lparr>args = [PStr ''d''], kwargs = [], result = PNone\<rparr>
           \<mapsto> PStr ''D''])
     = Inr (out, (), db') \<and>
     map result out = [PStr ''A'', PStr ''x'', PStr ''y'', PStr ''D'']"
proof -
  define H :: "string \<Rightarrow> string" where "H = (\<lambda>s. s)"
  define lm :: "unit generator"
    where "lm = (\<lambda>attr rs s. Inr (\<lambda>k. PStr (if k = 0 then ''x'' else ''y''), s))"
  define f :: "nat \<Rightarrow> pyval" where "f = (\<lambda>k. PStr (if k = 0 then ''x'' else ''y''))"
  let ?r0 = "\<lparr>args = [PStr ''a''], kwargs = [], result = PNone\<rparr>"
  let ?r1 = "\<lparr>args = [PStr ''b''], kwargs = [], result = PNone\<rparr>"
  let ?r2 = "\<lparr>args = [PStr ''c''], kwargs = [(''decoding_method'', PStr ''sample'')], result = PNone\<rparr>"
  let ?r3 = "\<lparr>args = [PStr ''d''], kwargs = [], result = PNone\<rparr>"
  define rs where "rs = [?r0, ?r1, ?r2, ?r3]"
  define db :: store where "db = [hash_args H ''generate_batch'' ?r0 \<mapsto> PStr ''A'',
              hash_args H ''generate_batch'' ?r2 \<mapsto> PStr ''old'',
              hash_args H ''generate_batch'' ?r3 \<mapsto> PStr ''D'']"
  have k: "hash_args H ''generate_batch'' ?r0 \<noteq> hash_args H ''generate_batch'' ?r1"
    "hash_args H ''generate_batch'' ?r0 \<noteq> hash_args H ''generate_batch'' ?r2"
    "hash_args H ''generate_batch'' ?r0 \<noteq> hash_args H ''generate_batch'' ?r3"
    "hash_args H ''generate_batch'' ?r1 \<noteq> hash_args H ''generate_batch'' ?r2"
    "hash_args H ''generate_batch'' ?r1 \<noteq> hash_args H ''generate_batch'' ?r3"
    "hash_args H ''generate_batch'' ?r2 \<noteq> hash_args H ''generate_batch'' ?r3"
    by (simp_all add: H_def hash_args_def hash_input_def json_str_def escape_char_def)
  have e: "\<not> exempt ''generate_batch'' ?r0" "\<not> exempt ''generate_batch'' ?r1"
    "exempt ''generate_batch'' ?r2" "\<not> exempt ''generate_batch'' ?r3"
    by (simp_all add: exempt_def)
  have v: "db (hash_args H ''generate_batch'' ?r0) = Some (PStr ''A'')"
    "db (hash_args H ''generate_batch'' ?r1) = None"
    "db (hash_args H ''generate_batch'' ?r3) = Some (PStr ''D'')"
    using k by (simp_all add: db_def)
  have n: "\<not> needs_run H ''generate_batch'' db ?r0" "needs_run H ''generate_batch'' db ?r1"
    "needs_run H ''generate_batch'' db ?r2" "\<not> needs_run H ''generate_batch'' db ?r3"
    using v e by (simp_all add: needs_run_def)
  have rem: "filter (needs_run H ''generate_batch'' db) rs = [?r1, ?r2]"
    using n by (simp add: rs_def)
  have h1: "\<forall>r \<in> set rs. \<not> exempt ''generate_batch'' r \<longrightarrow>
              db (hash_args H ''generate_batch'' r) \<noteq> Some PNone"
    using v e by (simp add: rs_def)
  have h2: "lm ''generate_batch'' (filter (needs_run H ''generate_batch'' db) rs) ((), db)
              = Inr (f, (), db)"
    by (simp add: lm_def f_def)
  have h3: "\<forall>k < length (filter (needs_run H ''generate_batch'' db) rs). f k \<noteq> PNone"
    by (simp add: f_def)
  note T = dispatch_merge [where requests = rs and attr = "''generate_batch''" and db = db
      and H = H and lm = lm and w = "()" and f = f and ?w1.0 = "()" and ?db1.0 = db]
  from T [OF h1 h2 h3]
  obtain out db' where d: "dispatch H lm ''generate_batch'' rs ((), db) = Inr (out, (), db')"
    and l: "length out = length rs"
    and nth: "\<And>i. i < length rs \<Longrightarrow>
              out ! i = (rs ! i)\<lparr>result :=
                (if needs_run H ''generate_batch'' db (rs ! i)
                 then f (length (filter (needs_run H ''generate_batch'' db) (take i rs)))
                 else the (db (hash_args H ''generate_batch'' (rs ! i))))\<rparr>"
    by blast
  have o0: "result (out ! 0) = PStr ''A''"
    using nth [of 0] n v by (simp add: rs_def)
  have o1: "result (out ! 1) = PStr ''x''"
    using nth [of 1] n v by (simp add: rs_def f_def)
  have o2: "result (out ! 2) = PStr ''y''"
    using nth [of 2] n v by (simp add: rs_def f_def numeral_2_eq_2)
  have o3: "result (out ! 3) = PStr ''D''"
    using nth [of 3] n v by (simp add: rs_def numeral_3_eq_3)
  have m: "map result out = [PStr ''A'', PStr ''x'', PStr ''y'', PStr ''D'']"
  proof (rule nth_equalityI)
    show "length (map result out) = length [PStr ''A'', PStr ''x'', PStr ''y'', PStr ''D'']"
      using l by (simp add: rs_def)
  next
    fix i assume "i < length (map result out)"
    then have "i < 4" using l by (simp add: rs_def)
    then consider "i = 0" | "i = 1" | "i = 2" | "i = 3" by linarith
    then show "map result out ! i = [PStr ''A'', PStr ''x'', PStr ''y'', PStr ''D''] ! i"
      using o0 o1 o2 o3 l by cases (simp_all add: rs_def numeral_2_eq_2 numeral_3_eq_3)
  qed
  note d' = d [unfolded H_def lm_def rs_def db_def]
  show ?thesis
    by (rule exI [of _ out], rule exI [of _ db'], rule conjI, rule d', rule m)
qed

text \<open>
  C2, evaluated at a failing input: one request that asks for sampling, dispatched
  under \<open>generate_batch\<close> on an empty store. The request goes to the generator and
  gets the fresh result, and the second loop writes that result into the store under the
  request's key: the store does not stay unchanged at its key.
\<close>

theorem sampled_request_cached:
  "dispatch H (\<lambda>attr rs s. Inr (\<lambda>k. PStr ''fresh'', s)) ''generate_batch''
     [\<lparr>args = [PStr ''Q''], kwargs = [(''decoding_method'', PStr ''sample'')], result = PNone\<rparr>]
     ((), Map.empty)
   = Inr ([\<lparr>args = [PStr ''Q''], kwargs = [(''decoding_method'', PStr ''sample'')],
            result = PStr ''fresh''\<rparr>],
          (),
          [hash_args H ''generate_batch''
             \<lparr>args = [PStr ''Q''], kwargs = [(''decoding_method'', PStr ''sample'')],
              result = PNone\<rparr> \<mapsto> PStr ''fresh''])"
  by (simp add: dispatch_def exempt_def set_results_def advance_here hash_args_def hash_input_def)

text \<open>
  C9: if a request that is not exempted from caching has its key in the store with the
  stored value \<open>PNone\<close>, the dispatch call fails with AssertionError, whatever the
  generator is: it is not consulted and nothing is recomputed. When a dispatch call
  returns, a request that is not exempted and has a stored value gets exactly that
  value as its result, and the value is not \<open>PNone\<close>.
\<close>

theorem cache_read_anomaly:
  "(r \<in> set requests \<and> \<not> exempt attr r \<and> db (hash_args H attr r) = Some PNone \<longrightarrow>
      dispatch H lm attr requests (w, db) = Inl AssertionError) \<and>
   (dispatch H lm attr requests (w, db) = Inr (out, w', db') \<and> i < length requests \<and>
    \<not> exempt attr (requests ! i) \<and> db (hash_args H attr (requests ! i)) = Some v \<longrightarrow>
      out ! i = (requests ! i)\<lparr>result := v\<rparr> \<and> v \<noteq> PNone)"
proof (intro conjI impI)
  assume "r \<in> set requests \<and> \<not> exempt attr r \<and> db (hash_args H attr r) = Some PNone"
  then show "dispatch H lm attr requests (w, db) = Inl AssertionError"
    by (elim conjE) (rule dispatch_poison)
next
  assume a: "dispatch H lm attr requests (w, db) = Inr (out, w', db') \<and> i < length requests \<and>
    \<not> exempt attr (requests ! i) \<and> db (hash_args H attr (requests ! i)) = Some v"
  then have "out ! i = (requests ! i)\<lparr>result := v\<rparr> \<and> v \<noteq> PNone"
    by (elim conjE) (rule dispatch_cached_kept)
  then show "out ! i = (requests ! i)\<lparr>result := v\<rparr>" and "v \<noteq> PNone"
    by simp_all
qed

theorem cache_read_anomaly_witness:
  "dispatch (\<lambda>s. s) (\<lambda>attr rs s. Inr (\<lambda>k. PStr ''fresh'', s)) ''loglikelihood''
     [\<lparr>args = [PStr ''a'', PStr ''b''], kwargs = [], result = PNone\<rparr>]
     ((), [hash_args (\<lambda>s. s) ''loglikelihood''
             \<lparr>args = [PStr ''a'', PStr ''b''], kwargs = [], result = PNone\<rparr> \<mapsto> PNone])
     = Inl AssertionError \<and>
   dispatch (\<lambda>s. s) (\<lambda>attr rs s. Inr (\<lambda>k. PStr ''fresh'', s)) ''loglikelihood''
     [\<lparr>args = [PStr ''a'', PStr ''b''], kwargs = [], result = PNone\<rparr>]
     ((), [hash_args (\<lambda>s. s) ''loglikelihood''
             \<lparr>args = [PStr ''a'', PStr ''b''], kwargs = [], result = PNone\<rparr> \<mapsto> PInt 7])
     = Inr ([\<lparr>args = [PStr ''a'', PStr ''b''], kwargs = [], result = PInt 7\<rparr>], (),
            [hash_args (\<lambda>s. s) ''loglikelihood''
               \<lparr>args = [PStr ''a'', PStr ''b''], kwargs = [], result = PNone\<rparr> \<mapsto> PInt 7])"
proof -
  define H :: "string \<Rightarrow> string" where "H = (\<lambda>s. s)"
  define lm :: "unit generator" where "lm = (\<lambda>attr rs s. Inr (\<lambda>k. PStr ''fresh'', s))"
  define r where "r = \<lparr>args = [PStr ''a'', PStr ''b''], kwargs = [], result = PNone\<rparr>"
  define bad :: store where "bad = [hash_args H ''loglikelihood'' r \<mapsto> PNone]"
  define good :: store where "good = [hash_args H ''loglikelihood'' r \<mapsto> PInt 7]"
  have e: "\<not> exempt ''loglikelihood'' r" by (simp add: exempt_def)
  have 1: "dispatch H lm ''loglikelihood'' [r] ((), bad) = Inl AssertionError"
    using cache_read_anomaly [where r = r and requests = "[r]" and attr = "''loglikelihood''"
        and db = bad and H = H and lm = lm and w = "()"] e
    by (simp add: bad_def)
  have g: "dispatch H lm ''loglikelihood'' [r] ((), good) = Inr ([r\<lparr>result := PInt 7\<rparr>], (), good)"
    using e by (simp add: dispatch_def good_def lm_def set_results_def)
  have 2: "dispatch H lm ''loglikelihood'' [r] ((), good)
      = Inr ([\<lparr>args = [PStr ''a'', PStr ''b''], kwargs = [], result = PInt 7\<rparr>], (), good)"
    using g by (simp add: r_def)
  from 1 2 show ?thesis
    unfolding H_def lm_def r_def bad_def good_def by (rule conjI)
qed

section \<open>Claims on batched generation\<close>






end
